theory Spec2Isabelle
  imports Main "HOL-Library.Word"
begin

unbundle bit_operations_syntax

section \<open>JavaScript values used by sprite-decoder.js\<close>

text \<open>
  The script computes on JavaScript Numbers that hold integers. A Number is an IEEE 754
  double, so an integer-valued Number is modelled as an \<open>int\<close>, and an operation whose
  exact result may not be a double rounds it with \<open>round_double\<close>. The result of
  \<open>parseInt\<close>, which may be \<open>NaN\<close>, is a \<open>number\<close>. The bitwise operators \<open><<\<close> and
  \<open>|\<close> convert their operands to 32-bit two's complement integers, so they are
  modelled on \<open>32 word\<close> and read back with \<open>sint\<close>.
\<close>

datatype number = Num int | NaN

datatype js_value = Undefined | Str string

text \<open>The number of bits of the minimal binary representation of a positive integer.\<close>

function bit_length :: "int \<Rightarrow> nat" where
  "bit_length x = (if x < 1 then 0 else Suc (bit_length (x div 2)))"
  by pat_completeness auto
termination
  by (relation "measure nat") auto

declare bit_length.simps [simp del]

text \<open>
  The Number value of an integer: the nearest double, ties to the even significand. An
  integer of magnitude up to \<open>2 ^ 53\<close> is a double. A larger one of \<open>b\<close> bits lies
  between two multiples of \<open>u = 2 ^ (b - 53)\<close>, and is rounded to the nearer one.
  (From \<open>2 ^ 1024\<close> on the Number value is \<open>Infinity\<close>, which is not modelled: the
  binary representation of a Number has at most 53 ones before its first \<open>0\<close>, so the
  values added by \<open>rle_decode\<close> stay below \<open>2 ^ 54\<close>.)
\<close>

definition round_double :: "int \<Rightarrow> int" where
  "round_double x =
     (let a = \<bar>x\<bar>
      in if a \<le> 2 ^ 53 then x
         else (let u = 2 ^ (bit_length a - 53);
                   q = a div u;
                   r = a mod u;
                   q' = (if u < 2 * r \<or> (2 * r = u \<and> odd q) then q + 1 else q)
               in sgn x * (q' * u)))"

text \<open>\<open>a + b\<close> on Numbers: the exact sum, rounded to a double.\<close>

fun num_add :: "number \<Rightarrow> number \<Rightarrow> number" where
  "num_add (Num a) (Num b) = Num (round_double (a + b))"
| "num_add _ _ = NaN"

definition digit_char :: "int \<Rightarrow> char" where
  "digit_char d = (if d = 0 then CHR ''0'' else CHR ''1'')"

text \<open>
  The binary digits of a non-negative integer, most significant first, \<open>''0''\<close> for
  zero. It is only applied to non-negative arguments.
\<close>

function to_bits :: "int \<Rightarrow> string" where
  "to_bits n = (if n < 2 then [digit_char n] else to_bits (n div 2) @ [digit_char (n mod 2)])"
  by pat_completeness auto
termination
  by (relation "measure nat") auto

declare to_bits.simps [simp del]

text \<open>\<open>Number.prototype.toString(2)\<close> on an integer: a minus sign, then the digits.\<close>

definition toString2 :: "int \<Rightarrow> string" where
  "toString2 x = (if x < 0 then CHR ''-'' # to_bits (- x) else to_bits x)"

text \<open>\<open>String.prototype.charAt\<close>: the empty string when the index is out of range.\<close>

definition charAt :: "string \<Rightarrow> nat \<Rightarrow> string" where
  "charAt s i = (if i < length s then [s ! i] else [])"

text \<open>
  The loose comparison \<open>charAt == 0\<close> converts the string to a Number. Of the strings
  \<open>charAt\<close> can return here (empty, a digit, a minus sign) the empty string and
  \<open>''0''\<close> convert to 0.
\<close>

definition loose_eq_zero :: "string \<Rightarrow> bool" where
  "loose_eq_zero s = (s = [] \<or> s = ''0'')"

definition is_bin_digit :: "char \<Rightarrow> bool" where
  "is_bin_digit c = (c = CHR ''0'' \<or> c = CHR ''1'')"

definition digit_val :: "char \<Rightarrow> int" where
  "digit_val c = (if c = CHR ''1'' then 1 else 0)"

text \<open>
  \<open>parseInt(s, 2)\<close>: an optional sign, then the longest run of binary digits; \<open>NaN\<close> when
  that run is empty, and otherwise the Number value of the integer the digits denote.
  (The strings parsed here hold no white space, which \<open>parseInt\<close> would skip.)
\<close>

definition parseInt2 :: "string \<Rightarrow> number" where
  "parseInt2 s =
     (let neg = (take 1 s = ''-'');
          body = (if take 1 s = ''-'' \<or> take 1 s = ''+'' then drop 1 s else s);
          ds = takeWhile is_bin_digit body
      in if ds = [] then NaN
         else Num (round_double
                    ((if neg then - 1 else 1) * foldl (\<lambda>a c. 2 * a + digit_val c) 0 ds)))"

text \<open>\<open>a << b\<close> and \<open>a | b\<close> on 32-bit integers; the shift count is taken modulo 32.\<close>

definition js_shl :: "int \<Rightarrow> int \<Rightarrow> int" where
  "js_shl a b = sint (push_bit (nat (b mod 32)) (word_of_int a :: 32 word))"

definition js_or :: "int \<Rightarrow> int \<Rightarrow> int" where
  "js_or a b = sint ((word_of_int a :: 32 word) OR word_of_int b)"

section \<open>The run-length codec\<close>

text \<open>
  The additions and subtractions of \<open>rle_encode\<close> are exact on every argument of
  magnitude below \<open>2 ^ 53 - 1\<close>, which covers every argument it is given below.
\<close>

definition rle_encode :: "int \<Rightarrow> int" where
  "rle_encode n0 =
     (let n = n0 + 1;
          v = n - 2 ^ (length (toString2 n) - 1);
          l = n - v - 2;
          encoded = js_or (js_shl l (int (length (toString2 l)))) v
      in encoded)"

text \<open>The first loop of \<open>rle_decode\<close>: copy characters into \<open>l\<close> up to and including the first one that compares equal to 0.\<close>

function prefix_loop :: "string \<Rightarrow> nat \<Rightarrow> string \<Rightarrow> string" where
  "prefix_loop strN i l =
     (if i < length strN
      then (let c = charAt strN i; l' = l @ c
            in if loose_eq_zero c then l' else prefix_loop strN (i + 1) l')
      else l)"
  by pat_completeness auto
termination
  by (relation "measure (\<lambda>(strN, i, l). length strN - i)") auto

declare prefix_loop.simps [simp del]

text \<open>The second loop: append \<open>strN.charAt(i)\<close> for \<open>i\<close> from \<open>l.length\<close> below \<open>l.length * 2\<close>.\<close>

function residual_loop :: "string \<Rightarrow> nat \<Rightarrow> nat \<Rightarrow> string \<Rightarrow> string" where
  "residual_loop strN i hi n =
     (if i < hi then residual_loop strN (i + 1) hi (n @ charAt strN i) else n)"
  by pat_completeness auto
termination
  by (relation "measure (\<lambda>(strN, i, hi, n). hi - i)") auto

declare residual_loop.simps [simp del]

definition rle_decode :: "int \<Rightarrow> number" where
  "rle_decode encoded =
     (let strN = toString2 encoded;
          l = prefix_loop strN 0 [];
          n = residual_loop strN (length l) (length l * 2) [];
          n = (if n = [] then ''0'' else n);
          decoded = num_add (num_add (parseInt2 l) (parseInt2 n)) (Num 1)
      in decoded)"

section \<open>Bitplane decompression\<close>

text \<open>The loop of \<open>decompress_bp\<close>: its only statement is an \<open>if\<close> with an empty body.\<close>

function decompress_bp_loop :: "bool \<Rightarrow> string \<Rightarrow> nat \<Rightarrow> string \<Rightarrow> string" where
  "decompress_bp_loop isRle bitplane i decompressed =
     (if i < length bitplane
      then (if isRle then decompress_bp_loop isRle bitplane (i + 1) decompressed
            else decompress_bp_loop isRle bitplane (i + 1) decompressed)
      else decompressed)"
  by pat_completeness auto
termination
  by (relation "measure (\<lambda>(isRle, bitplane, i, decompressed). length bitplane - i)") auto

declare decompress_bp_loop.simps [simp del]

text \<open>The function ends without a \<open>return\<close>, so a call evaluates to \<open>undefined\<close>.\<close>

definition decompress_bp :: "string \<Rightarrow> js_value" where
  "decompress_bp bitplane =
     (let isRle = (charAt bitplane 0 = ''0'');
          decompressed = decompress_bp_loop isRle bitplane 1 []
      in Undefined)"

section \<open>Reference definitions\<close>

text \<open>The value of a bit string read as a binary numeral; the empty string has value 0.\<close>

fun bits_value :: "string \<Rightarrow> int" where
  "bits_value [] = 0"
| "bits_value (c # cs) = digit_val c * 2 ^ length cs + bits_value cs"

text \<open>
  The codeword of the reference encoder read as a number: with \<open>x = n + 1\<close>,
  \<open>k = bit_length x - 1\<close>, \<open>v = x - 2 ^ k\<close> and \<open>l = 2 ^ k - 2\<close>, the \<open>k\<close> bits of
  \<open>l\<close> followed by the \<open>k\<close> bits of \<open>v\<close>.
\<close>

definition reference_encode :: "int \<Rightarrow> int" where
  "reference_encode n =
     (let x = n + 1;
          k = bit_length x - 1;
          v = x - 2 ^ k;
          l = 2 ^ k - 2
      in l * 2 ^ k + v)"

text \<open>
  The unary prefix of a bit string: its characters up to and including the first
  \<open>0\<close>, or the whole string when it holds no \<open>0\<close>.
\<close>

fun read_prefix :: "string \<Rightarrow> string" where
  "read_prefix [] = []"
| "read_prefix (c # cs) = (if c = CHR ''0'' then [c] else c # read_prefix cs)"

text \<open>
  A truncated input: its binary representation is all ones, so that the unary prefix is
  never terminated, or fewer than \<open>k\<close> bits follow a prefix of \<open>k\<close> bits.
\<close>

definition truncated :: "int \<Rightarrow> bool" where
  "truncated encoded =
     (let s = toString2 encoded; k = length (read_prefix s)
      in list_all (\<lambda>c. c = CHR ''1'') s \<or> length s < 2 * k)"

section \<open>Binary digit strings\<close>

lemma to_bits_small: "n < 2 \<Longrightarrow> to_bits n = [digit_char n]"
  by (subst to_bits.simps) simp

lemma to_bits_step: "2 \<le> n \<Longrightarrow> to_bits n = to_bits (n div 2) @ [digit_char (n mod 2)]"
  by (subst to_bits.simps) simp

lemma to_bits_double:
  assumes "1 \<le> q" and "d = 0 \<or> d = 1"
  shows "to_bits (2 * q + d) = to_bits q @ [digit_char d]"
proof -
  have "2 \<le> 2 * q + d" using assms by auto
  moreover have "(2 * q + d) div 2 = q" "(2 * q + d) mod 2 = d" using assms by auto
  ultimately show ?thesis using to_bits_step [of "2 * q + d"] by simp
qed

lemma digit_char_digit_val: "is_bin_digit c \<Longrightarrow> digit_char (digit_val c) = c"
  by (auto simp: is_bin_digit_def digit_char_def digit_val_def)

lemma digit_val_range: "digit_val c = 0 \<or> digit_val c = 1"
  by (simp add: digit_val_def)

lemma bits_value_nonneg: "0 \<le> bits_value t"
  by (induction t) (auto simp: digit_val_def)

lemma bits_value_append:
  "bits_value (xs @ ys) = bits_value xs * 2 ^ length ys + bits_value ys"
  by (induction xs) (simp_all add: algebra_simps power_add)

lemma bits_value_less: "bits_value t < 2 ^ length t"
proof (induction t)
  case Nil
  show ?case by simp
next
  case (Cons c cs)
  define p where "p = (2::int) ^ length cs"
  have "0 < p" by (simp add: p_def)
  moreover have "bits_value cs < p" using Cons by (simp add: p_def)
  moreover have "digit_val c * p \<le> p" using \<open>0 < p\<close> by (simp add: digit_val_def)
  ultimately have "digit_val c * p + bits_value cs < 2 * p" by linarith
  then show ?case by (simp add: p_def)
qed

lemma to_bits_append:
  assumes "1 \<le> a" and "list_all is_bin_digit t"
  shows "to_bits (a * 2 ^ length t + bits_value t) = to_bits a @ t"
  using assms(2)
proof (induction t rule: rev_induct)
  case Nil
  show ?case by simp
next
  case (snoc c t)
  let ?q = "a * 2 ^ length t + bits_value t"
  have bin: "list_all is_bin_digit t" "is_bin_digit c" using snoc.prems by simp_all
  have q: "1 \<le> ?q"
  proof -
    have "1 * 1 \<le> a * 2 ^ length t" using assms(1) by (intro mult_mono) simp_all
    then show ?thesis using bits_value_nonneg [of t] by simp
  qed
  have e: "a * 2 ^ length (t @ [c]) + bits_value (t @ [c]) = 2 * ?q + digit_val c"
    by (simp add: bits_value_append algebra_simps)
  have "to_bits (2 * ?q + digit_val c) = to_bits ?q @ [digit_char (digit_val c)]"
    by (rule to_bits_double [OF q digit_val_range])
  also have "\<dots> = (to_bits a @ t) @ [c]"
    by (simp only: snoc.IH [OF bin(1)] digit_char_digit_val [OF bin(2)])
  finally show ?case by (simp only: e append_assoc)
qed

lemma one_le_two_power: "(1::int) \<le> 2 ^ k"
  by (rule one_le_power) simp

lemma one_le_pred_two_power: "(1::int) \<le> 2 ^ Suc j - 1"
proof -
  have "(2::int) ^ Suc j = 2 * 2 ^ j" by simp
  then show ?thesis using one_le_two_power [of j] by linarith
qed

lemma to_bits_ones: "to_bits (2 ^ Suc j - 1) = replicate (Suc j) CHR ''1''"
proof (induction j)
  case 0
  show ?case by (simp add: to_bits_small digit_char_def)
next
  case (Suc j)
  have q: "(1::int) \<le> 2 ^ Suc j - 1" by (rule one_le_pred_two_power)
  have "(2::int) ^ Suc (Suc j) - 1 = 2 * (2 ^ Suc j - 1) + 1" by simp
  then have "to_bits (2 ^ Suc (Suc j) - 1) = to_bits (2 ^ Suc j - 1) @ [digit_char 1]"
    using to_bits_double [OF q, of 1] by simp
  then show ?case using Suc by (simp add: digit_char_def replicate_append_same)
qed

lemma to_bits_unary: "to_bits (2 ^ Suc (Suc j) - 2) = replicate (Suc j) CHR ''1'' @ ''0''"
proof -
  have q: "(1::int) \<le> 2 ^ Suc j - 1" by (rule one_le_pred_two_power)
  have "(2::int) ^ Suc (Suc j) - 2 = 2 * (2 ^ Suc j - 1) + 0" by simp
  then have "to_bits (2 ^ Suc (Suc j) - 2) = to_bits (2 ^ Suc j - 1) @ [digit_char 0]"
    using to_bits_double [OF q, of 0] by simp
  also have "\<dots> = replicate (Suc j) CHR ''1'' @ ''0''"
    by (simp only: to_bits_ones) (simp add: digit_char_def)
  finally show ?thesis .
qed

lemma is_bin_digit_char: "is_bin_digit (digit_char d)"
  by (simp add: digit_char_def is_bin_digit_def)

lemma to_bits_bin: "0 \<le> n \<Longrightarrow> list_all is_bin_digit (to_bits n)"
proof (induction n rule: to_bits.induct)
  case (1 n)
  show ?case
  proof (cases "n < 2")
    case True
    then show ?thesis by (simp add: to_bits_small is_bin_digit_char)
  next
    case False
    then have "list_all is_bin_digit (to_bits (n div 2))" using 1 by simp
    then show ?thesis using False
      by (simp add: to_bits_step is_bin_digit_char)
  qed
qed

lemma bits_value_to_bits: "0 \<le> n \<Longrightarrow> bits_value (to_bits n) = n"
proof (induction n rule: to_bits.induct)
  case (1 n)
  show ?case
  proof (cases "n < 2")
    case True
    then have "n = 0 \<or> n = 1" using 1(2) by auto
    then show ?thesis by (auto simp: to_bits_small digit_char_def digit_val_def)
  next
    case False
    then have "bits_value (to_bits (n div 2)) = n div 2" using 1 by simp
    moreover have "digit_val (digit_char (n mod 2)) = n mod 2"
      by (auto simp: digit_char_def digit_val_def)
    ultimately show ?thesis using False
      by (simp add: to_bits_step bits_value_append)
  qed
qed

lemma length_to_bits: "1 \<le> n \<Longrightarrow> length (to_bits n) = bit_length n"
proof (induction n rule: to_bits.induct)
  case (1 n)
  show ?case
  proof (cases "n < 2")
    case True
    then have "n = 1" using 1(2) by simp
    then show ?thesis by (simp add: to_bits_small bit_length.simps)
  next
    case False
    then have "length (to_bits (n div 2)) = bit_length (n div 2)" using 1 by simp
    then show ?thesis using False
      by (simp add: to_bits_step) (subst (2) bit_length.simps, simp)
  qed
qed

lemma bit_length_bounds: "1 \<le> n \<Longrightarrow> 2 ^ (bit_length n - 1) \<le> n \<and> n < 2 ^ bit_length n"
proof (induction n rule: bit_length.induct)
  case (1 n)
  show ?case
  proof (cases "n < 2")
    case True
    then have "n = 1" using 1(2) by simp
    then show ?thesis by (simp add: bit_length.simps)
  next
    case False
    then have ih: "2 ^ (bit_length (n div 2) - 1) \<le> n div 2 \<and> n div 2 < 2 ^ bit_length (n div 2)"
      using 1 by simp
    have pos: "0 < bit_length (n div 2)"
      using False by (subst bit_length.simps) simp
    have bl: "bit_length n = Suc (bit_length (n div 2))"
      using False by (subst bit_length.simps) simp
    obtain m where m: "bit_length (n div 2) = Suc m" using pos by (cases "bit_length (n div 2)") auto
    show ?thesis using ih unfolding bl m by auto
  qed
qed

lemma bit_length_unique:
  assumes "2 ^ k \<le> n" and "n < 2 ^ Suc k"
  shows "bit_length n = Suc k"
proof -
  have n1: "1 \<le> n" using assms(1) one_le_two_power [of k] by linarith
  note b = bit_length_bounds [OF n1]
  have "(2::int) ^ k < 2 ^ bit_length n" using assms(1) b by linarith
  then have 1: "k < bit_length n" by (simp add: power_strict_increasing_iff)
  have "(2::int) ^ (bit_length n - 1) < 2 ^ Suc k" using assms(2) b by linarith
  then have 2: "bit_length n - 1 < Suc k" by (simp only: power_strict_increasing_iff)
  show ?thesis using 1 2 by linarith
qed

section \<open>Rounding to a double\<close>

lemma round_double_exact: "\<bar>x\<bar> \<le> 2 ^ 53 \<Longrightarrow> round_double x = x"
  by (simp add: round_double_def)

lemma round_double_pos:
  assumes "1 \<le> x"
  shows "1 \<le> round_double x"
proof (cases "\<bar>x\<bar> \<le> 2 ^ 53")
  case True
  then show ?thesis using assms by (simp add: round_double_exact)
next
  case False
  define u :: int where "u = 2 ^ (bit_length x - 53)"
  define q where "q = x div u"
  define q' where "q' = (if u < 2 * (x mod u) \<or> (2 * (x mod u) = u \<and> odd q) then q + 1 else q)"
  have ax: "\<bar>x\<bar> = x" "sgn x = 1" using assms by simp_all
  have u1: "1 \<le> u" unfolding u_def by (rule one_le_two_power)
  have "u \<le> 2 ^ (bit_length x - 1)"
    unfolding u_def by (intro power_increasing) simp_all
  then have "u \<le> x" using bit_length_bounds [OF assms] by linarith
  moreover have "0 < u" using u1 by simp
  ultimately have "0 < x div u" by (simp add: pos_imp_zdiv_pos_iff)
  then have "1 \<le> q" by (simp add: q_def)
  then have "1 \<le> q'" by (simp add: q'_def)
  then have "1 * 1 \<le> q' * u" using u1 by (intro mult_mono) simp_all
  moreover have "round_double x = q' * u"
    using False by (simp add: round_double_def Let_def ax u_def q_def q'_def)
  ultimately show ?thesis by simp
qed

lemma round_double_nonneg: "0 \<le> x \<Longrightarrow> 0 \<le> round_double x"
proof (cases "x = 0")
  case True
  then show ?thesis by (simp add: round_double_exact)
next
  case False
  assume "0 \<le> x"
  with False have "1 \<le> x" by simp
  then have "1 \<le> round_double x" by (rule round_double_pos)
  then show ?thesis by simp
qed

section \<open>The encoder below 32 bits\<close>

lemma js_shl_exact:
  assumes "k < 32" and "- (2 ^ 31) \<le> a * 2 ^ k" and "a * 2 ^ k < 2 ^ 31"
  shows "js_shl a (int k) = a * 2 ^ k"
proof -
  have "nat (int k mod 32) = k" using assms(1) by simp
  then have "js_shl a (int k) = sint (word_of_int (push_bit k a) :: 32 word)"
    by (simp add: js_shl_def push_bit_of_int)
  also have "\<dots> = signed_take_bit 31 (a * 2 ^ k)"
    by (simp only: sint_sbintrunc' push_bit_eq_mult) simp
  also have "\<dots> = a * 2 ^ k"
    using assms(2,3) by (rule signed_take_bit_int_eq_self)
  finally show ?thesis .
qed

lemma js_or_disjoint:
  assumes "0 \<le> v" and "v < 2 ^ k" and "0 \<le> a" and "a * 2 ^ k + v < 2 ^ 31"
  shows "js_or (a * 2 ^ k) v = a * 2 ^ k + v"
proof -
  have "a * 2 ^ k OR v = concat_bit k v a"
    using assms(1,2) by (simp add: concat_bit_def take_bit_int_eq_self push_bit_eq_mult or.commute)
  also have "\<dots> = a * 2 ^ k + v"
    using assms(1,2) by (simp add: concat_bit_eq take_bit_int_eq_self push_bit_eq_mult)
  finally have e: "a * 2 ^ k OR v = a * 2 ^ k + v" .
  have "js_or (a * 2 ^ k) v = sint (word_of_int (a * 2 ^ k OR v) :: 32 word)"
    by (simp add: js_or_def of_int_or_eq)
  also have "\<dots> = signed_take_bit 31 (a * 2 ^ k + v)"
    by (simp only: sint_sbintrunc' e) simp
  also have "\<dots> = a * 2 ^ k + v"
  proof (rule signed_take_bit_int_eq_self)
    have "0 \<le> a * 2 ^ k" using assms(3) by simp
    then have "0 \<le> a * 2 ^ k + v" using assms(1) by linarith
    then show "- (2 ^ 31) \<le> a * 2 ^ k + v" by simp
    show "a * 2 ^ k + v < 2 ^ 31" by (rule assms(4))
  qed
  finally show ?thesis .
qed

lemma toString2_nonneg: "0 \<le> x \<Longrightarrow> toString2 x = to_bits x"
  by (simp add: toString2_def)

lemma length_unary: "1 \<le> k \<Longrightarrow> length (to_bits (2 ^ k - 2)) = k"
proof (cases k)
  case 0
  assume "1 \<le> k"
  with 0 show ?thesis by simp
next
  case (Suc j)
  show ?thesis
  proof (cases j)
    case 0
    with Suc show ?thesis by (simp add: to_bits_small)
  next
    case (Suc i)
    with \<open>k = Suc j\<close> show ?thesis by (simp only: to_bits_unary) simp
  qed
qed

lemma rle_encode_exact:
  assumes lo: "2 ^ k \<le> n + 1" and hi: "n + 1 < 2 ^ Suc k" and k1: "1 \<le> k" and k15: "k \<le> 15"
  shows "rle_encode n = (2 ^ k - 2) * 2 ^ k + (n + 1 - 2 ^ k)"
proof -
  have pos: "1 \<le> n + 1" using lo one_le_two_power [of k] by linarith
  have len: "length (toString2 (n + 1)) = Suc k"
    using pos bit_length_unique [OF lo hi] by (simp add: toString2_nonneg length_to_bits)
  define v where "v = n + 1 - 2 ^ k"
  define l where "l = (2::int) ^ k - 2"
  have v: "0 \<le> v" "v < 2 ^ k" using lo hi by (simp_all add: v_def)
  have "(2::int) ^ 1 \<le> 2 ^ k" using k1 by (intro power_increasing) simp_all
  then have l: "0 \<le> l" by (simp add: l_def)
  have l_eq: "n + 1 - v - 2 = l" by (simp add: v_def l_def)
  have lenl: "length (toString2 l) = k"
    using l k1 by (simp add: toString2_nonneg) (simp add: l_def length_unary)
  have "(2::int) ^ k \<le> 2 ^ 15" using k15 by (intro power_increasing) simp_all
  then have p15: "(2::int) ^ k \<le> 32768" by simp
  have "l * 2 ^ k \<le> 32766 * 32768"
    using p15 l by (intro mult_mono) (simp_all add: l_def)
  then have bound: "l * 2 ^ k + v < 2 ^ 31" using v(2) p15 by simp
  have nonneg: "0 \<le> l * 2 ^ k" using l by simp
  have shl: "js_shl l (int k) = l * 2 ^ k"
  proof (rule js_shl_exact)
    show "k < 32" using k15 by simp
    show "- (2 ^ 31) \<le> l * 2 ^ k" using nonneg by simp
    show "l * 2 ^ k < 2 ^ 31" using bound v(1) by linarith
  qed
  have vv: "n + 1 - 2 ^ (length (toString2 (n + 1)) - 1) = v"
    by (simp add: len v_def)
  have "rle_encode n = js_or (js_shl l (int (length (toString2 l)))) v"
    unfolding rle_encode_def Let_def vv l_eq by (rule refl)
  also have "\<dots> = js_or (l * 2 ^ k) v" by (simp only: lenl shl)
  also have "\<dots> = l * 2 ^ k + v" using v l bound by (rule js_or_disjoint)
  finally show ?thesis by (simp only: l_def v_def)
qed

lemma codeword_width:
  assumes "1 \<le> n" and "n \<le> 65534"
  shows "\<exists>k. 2 ^ k \<le> n + 1 \<and> n + 1 < 2 ^ Suc k \<and> 1 \<le> k \<and> k \<le> 15
             \<and> bit_length (n + 1) = Suc k"
proof -
  have x: "1 \<le> n + 1" using assms(1) by simp
  note b = bit_length_bounds [OF x]
  have "\<not> bit_length (n + 1) < 2"
  proof
    assume "bit_length (n + 1) < 2"
    then have "(2::int) ^ bit_length (n + 1) \<le> 2 ^ 1"
      by (intro power_increasing) simp_all
    then show False using b assms(1) by simp
  qed
  then obtain k where k: "bit_length (n + 1) = Suc k" "1 \<le> k"
    by (cases "bit_length (n + 1)") auto
  have "(2::int) ^ k < 2 ^ 16" using b assms(2) by (simp add: k)
  then have "k < 16" by (simp only: power_strict_increasing_iff)
  then show ?thesis using b k by auto
qed

section \<open>What the decoder computes\<close>

lemma prefix_loop_eq: "i \<le> length s \<Longrightarrow> prefix_loop s i l = l @ read_prefix (drop i s)"
proof (induction s i l rule: prefix_loop.induct)
  case (1 strN i l)
  show ?case
  proof (cases "i < length strN")
    case False
    then show ?thesis by (subst prefix_loop.simps) simp
  next
    case True
    then have d: "drop i strN = strN ! i # drop (Suc i) strN"
      by (simp add: Cons_nth_drop_Suc)
    have c: "charAt strN i = [strN ! i]" using True by (simp add: charAt_def)
    show ?thesis
    proof (cases "strN ! i = CHR ''0''")
      case True
      then show ?thesis using \<open>i < length strN\<close>
        by (subst prefix_loop.simps) (simp add: c d loose_eq_zero_def)
    next
      case False
      then have nz: "\<not> loose_eq_zero (charAt strN i)" by (simp add: c loose_eq_zero_def)
      have "prefix_loop strN (i + 1) (l @ charAt strN i)
            = (l @ charAt strN i) @ read_prefix (drop (i + 1) strN)"
        using 1 True nz by simp
      then show ?thesis using True False nz
        by (subst prefix_loop.simps) (simp add: c d)
    qed
  qed
qed

lemma residual_loop_eq: "residual_loop s i hi n = n @ take (hi - i) (drop i s)"
proof (induction s i hi n rule: residual_loop.induct)
  case (1 strN i hi n)
  show ?case
  proof (cases "i < hi")
    case False
    then show ?thesis by (subst residual_loop.simps) simp
  next
    case True
    then obtain m where m: "hi - i = Suc m" "hi - (i + 1) = m"
      by (cases "hi - i") auto
    have ih: "residual_loop strN (i + 1) hi (n @ charAt strN i)
              = (n @ charAt strN i) @ take (hi - (i + 1)) (drop (i + 1) strN)"
      using 1 True by simp
    have "charAt strN i @ take m (drop (i + 1) strN) = take (Suc m) (drop i strN)"
    proof (cases "i < length strN")
      case True
      then show ?thesis by (simp add: charAt_def flip: Cons_nth_drop_Suc)
    next
      case False
      then show ?thesis by (simp add: charAt_def)
    qed
    then show ?thesis using True ih m
      by (subst residual_loop.simps) simp
  qed
qed

lemma read_prefix_take: "read_prefix s = take (length (read_prefix s)) s"
  by (induction s) auto

lemma read_prefix_nonempty: "s \<noteq> [] \<Longrightarrow> read_prefix s \<noteq> []"
  by (cases s) auto

lemma read_prefix_unary: "read_prefix (replicate j CHR ''1'' @ CHR ''0'' # xs) = replicate j CHR ''1'' @ ''0''"
  by (induction j) auto

lemma read_prefix_ones: "list_all (\<lambda>c. c = CHR ''1'') s \<Longrightarrow> read_prefix s = s"
  by (induction s) auto

lemma foldl_horner:
  "foldl (\<lambda>a c. 2 * a + digit_val c) acc ds = acc * 2 ^ length ds + bits_value ds"
  by (induction ds arbitrary: acc) (simp_all add: algebra_simps)

lemma takeWhile_all: "list_all P xs \<Longrightarrow> takeWhile P xs = xs"
  by (induction xs) auto

lemma parseInt2_bin:
  assumes "list_all is_bin_digit ds" and "ds \<noteq> []"
  shows "parseInt2 ds = Num (round_double (bits_value ds))"
proof -
  obtain c cs where ds: "ds = c # cs" using assms(2) by (cases ds) auto
  have c: "is_bin_digit c" using assms(1) ds by simp
  then have sign: "take 1 ds \<noteq> ''-''" "take 1 ds \<noteq> ''+''"
    by (auto simp: ds is_bin_digit_def)
  have tw: "takeWhile is_bin_digit ds = ds" using assms(1) by (rule takeWhile_all)
  show ?thesis using sign assms(2)
    by (simp add: parseInt2_def Let_def tw foldl_horner)
qed

lemma to_bits_nonempty: "to_bits n \<noteq> []"
  by (subst to_bits.simps) simp

lemma list_all_take: "list_all P xs \<Longrightarrow> list_all P (take n xs)"
  by (auto simp: list_all_iff dest: in_set_takeD)

lemma list_all_drop: "list_all P xs \<Longrightarrow> list_all P (drop n xs)"
  by (auto simp: list_all_iff dest: in_set_dropD)

lemma rle_decode_rounded:
  assumes "0 \<le> enc"
  shows "rle_decode enc =
           Num (round_double
                  (round_double
                     (round_double (bits_value (read_prefix (to_bits enc)))
                      + round_double
                          (bits_value (take (length (read_prefix (to_bits enc)))
                             (drop (length (read_prefix (to_bits enc))) (to_bits enc)))))
                   + 1))"
proof -
  define s where "s = to_bits enc"
  define l where "l = read_prefix s"
  define n where "n = take (length l) (drop (length l) s)"
  have bin: "list_all is_bin_digit s" using assms by (simp add: s_def to_bits_bin)
  have l_ne: "l \<noteq> []" by (simp add: l_def s_def read_prefix_nonempty to_bits_nonempty)
  have "l = take (length l) s" unfolding l_def by (rule read_prefix_take)
  then have l_bin: "list_all is_bin_digit l" using bin by (metis list_all_take)
  have n_bin: "list_all is_bin_digit n" unfolding n_def using bin
    by (intro list_all_take list_all_drop)
  have pl: "prefix_loop s 0 [] = l" by (simp add: prefix_loop_eq l_def)
  have rl: "residual_loop s (length l) (length l * 2) [] = n"
    by (simp add: residual_loop_eq n_def)
  have pn: "parseInt2 (if n = [] then ''0'' else n) = Num (round_double (bits_value n))"
  proof (cases "n = []")
    case True
    then show ?thesis
      by (simp add: parseInt2_def is_bin_digit_def digit_val_def round_double_exact)
  next
    case False
    then show ?thesis using n_bin by (simp add: parseInt2_bin)
  qed
  have "rle_decode enc = num_add (num_add (parseInt2 l) (parseInt2 (if n = [] then ''0'' else n))) (Num 1)"
    using assms by (simp add: rle_decode_def toString2_nonneg Let_def pl rl flip: s_def)
  also have "\<dots> = Num (round_double (round_double (round_double (bits_value l)
                       + round_double (bits_value n)) + 1))"
    by (simp only: pn parseInt2_bin [OF l_bin l_ne] num_add.simps)
  finally show ?thesis by (simp only: l_def n_def s_def)
qed

lemma rle_decode_positive:
  assumes "0 \<le> enc"
  shows "\<exists>v. rle_decode enc = Num v \<and> 1 \<le> v"
proof -
  define P where "P = bits_value (read_prefix (to_bits enc))"
  define R where "R = bits_value (take (length (read_prefix (to_bits enc)))
                        (drop (length (read_prefix (to_bits enc))) (to_bits enc)))"
  have "0 \<le> round_double P" "0 \<le> round_double R"
    unfolding P_def R_def by (intro round_double_nonneg bits_value_nonneg)+
  then have "0 \<le> round_double (round_double P + round_double R)"
    by (intro round_double_nonneg) simp
  then have "1 \<le> round_double (round_double (round_double P + round_double R) + 1)"
    by (intro round_double_pos) simp
  then show ?thesis using rle_decode_rounded [OF assms] by (simp add: P_def R_def)
qed

lemma rle_decode_formula:
  assumes "0 \<le> enc"
    and "bits_value (read_prefix (to_bits enc))
         + bits_value (take (length (read_prefix (to_bits enc)))
                         (drop (length (read_prefix (to_bits enc))) (to_bits enc)))
         + 1 \<le> 2 ^ 53"
  shows "rle_decode enc =
           Num (bits_value (read_prefix (to_bits enc))
                + bits_value (take (length (read_prefix (to_bits enc)))
                                (drop (length (read_prefix (to_bits enc))) (to_bits enc)))
                + 1)"
proof -
  define P where "P = bits_value (read_prefix (to_bits enc))"
  define R where "R = bits_value (take (length (read_prefix (to_bits enc)))
                        (drop (length (read_prefix (to_bits enc))) (to_bits enc)))"
  have nn: "0 \<le> P" "0 \<le> R" unfolding P_def R_def by (rule bits_value_nonneg)+
  have b: "P + R + 1 \<le> 2 ^ 53" using assms(2) by (simp add: P_def R_def)
  have "round_double P = P" "round_double R = R"
    using nn b by (intro round_double_exact; simp)+
  moreover have "round_double (P + R) = P + R"
    using nn b by (intro round_double_exact) simp
  moreover have "round_double (P + R + 1) = P + R + 1"
    using nn b by (intro round_double_exact) simp
  ultimately show ?thesis using rle_decode_rounded [OF assms(1)]
    by (simp add: P_def R_def)
qed

lemma prefix_residual_le:
  assumes "0 \<le> enc"
  shows "bits_value (read_prefix (to_bits enc))
         + bits_value (take (length (read_prefix (to_bits enc)))
                         (drop (length (read_prefix (to_bits enc))) (to_bits enc)))
         \<le> enc"
proof -
  define s where "s = to_bits enc"
  define k where "k = length (read_prefix s)"
  define P where "P = bits_value (read_prefix s)"
  define R where "R = bits_value (take k (drop k s))"
  define Z where "Z = bits_value (drop k (drop k s))"
  define a where "a = length (take k (drop k s))"
  define b where "b = length (drop k (drop k s))"
  have nn: "0 \<le> P" "0 \<le> R" "0 \<le> Z" unfolding P_def R_def Z_def by (rule bits_value_nonneg)+
  have "read_prefix s = take k s" unfolding k_def by (rule read_prefix_take)
  then have "s = read_prefix s @ (take k (drop k s) @ drop k (drop k s))"
    by (metis append_take_drop_id)
  then have "bits_value s = bits_value (read_prefix s @ (take k (drop k s) @ drop k (drop k s)))"
    by simp
  also have "\<dots> = P * 2 ^ (a + b) + (R * 2 ^ b + Z)"
    by (simp only: bits_value_append length_append P_def R_def Z_def a_def b_def)
  finally have e: "enc = P * 2 ^ (a + b) + (R * 2 ^ b + Z)"
    using assms by (simp add: s_def bits_value_to_bits)
  have "P * 1 \<le> P * 2 ^ (a + b)" using nn(1) by (intro mult_left_mono) simp_all
  moreover have "R * 1 \<le> R * 2 ^ b" using nn(2) by (intro mult_left_mono) simp_all
  ultimately have "P + R \<le> enc" using nn(3) unfolding e by linarith
  then show ?thesis by (simp add: P_def R_def k_def s_def)
qed

lemma rle_decode_safe:
  assumes "0 \<le> enc" and "enc < 2 ^ 53"
  shows "rle_decode enc =
           Num (bits_value (read_prefix (to_bits enc))
                + bits_value (take (length (read_prefix (to_bits enc)))
                                (drop (length (read_prefix (to_bits enc))) (to_bits enc)))
                + 1)"
  using assms(1)
proof (rule rle_decode_formula)
  show "bits_value (read_prefix (to_bits enc))
         + bits_value (take (length (read_prefix (to_bits enc)))
                         (drop (length (read_prefix (to_bits enc))) (to_bits enc)))
         + 1 \<le> 2 ^ 53"
    using prefix_residual_le [OF assms(1)] assms(2) by linarith
qed

lemma rle_decode_split:
  assumes "0 \<le> enc" and "to_bits enc = replicate j CHR ''1'' @ CHR ''0'' # res @ rest"
    and "length res = Suc j"
    and "bits_value (replicate j CHR ''1'' @ ''0'') + bits_value res + 1 \<le> 2 ^ 53"
  shows "rle_decode enc = Num (bits_value (replicate j CHR ''1'' @ ''0'') + bits_value res + 1)"
proof -
  have p: "read_prefix (to_bits enc) = replicate j CHR ''1'' @ ''0''"
    by (simp only: assms(2) read_prefix_unary)
  have "drop (Suc j) (to_bits enc) = res @ rest" by (simp add: assms(2))
  then have r: "take (Suc j) (drop (Suc j) (to_bits enc)) = res" using assms(3) by simp
  have "rle_decode enc =
           Num (bits_value (read_prefix (to_bits enc))
                + bits_value (take (length (read_prefix (to_bits enc)))
                                (drop (length (read_prefix (to_bits enc))) (to_bits enc)))
                + 1)"
    using assms(1)
  proof (rule rle_decode_formula)
    show "bits_value (read_prefix (to_bits enc))
         + bits_value (take (length (read_prefix (to_bits enc)))
                         (drop (length (read_prefix (to_bits enc))) (to_bits enc)))
         + 1 \<le> 2 ^ 53"
      using assms(4) by (simp add: p r)
  qed
  then show ?thesis by (simp add: p r)
qed

lemma fixed_width_exists:
  "0 \<le> v \<Longrightarrow> v < 2 ^ k \<Longrightarrow>
     \<exists>res. length res = k \<and> list_all is_bin_digit res \<and> bits_value res = v"
proof (induction k arbitrary: v)
  case 0
  then show ?case by simp
next
  case (Suc k)
  have "0 \<le> v div 2" "v div 2 < 2 ^ k" using Suc.prems by auto
  then obtain r where r: "length r = k" "list_all is_bin_digit r" "bits_value r = v div 2"
    using Suc.IH by blast
  let ?res = "r @ [digit_char (v mod 2)]"
  have "digit_val (digit_char (v mod 2)) = v mod 2"
    by (auto simp: digit_char_def digit_val_def)
  then have "bits_value ?res = v" using r(3) by (simp add: bits_value_append)
  moreover have "length ?res = Suc k" using r(1) by simp
  moreover have "list_all is_bin_digit ?res" using r(2) by (simp add: is_bin_digit_char)
  ultimately show ?case by blast
qed

lemma decode_codeword_suffix:
  assumes v: "0 \<le> v" "v < 2 ^ Suc (Suc j)" and t: "list_all is_bin_digit t"
    and small: "2 ^ Suc (Suc j) - 2 + v + 1 \<le> (2::int) ^ 53"
  shows "rle_decode (((2 ^ Suc (Suc j) - 2) * 2 ^ Suc (Suc j) + v) * 2 ^ length t + bits_value t)
         = Num (2 ^ Suc (Suc j) - 2 + v + 1)"
proof -
  let ?k = "Suc (Suc j)"
  let ?l = "(2::int) ^ ?k - 2"
  obtain res where res: "length res = ?k" "list_all is_bin_digit res" "bits_value res = v"
    using fixed_width_exists [OF v] by blast
  have p: "(1::int) \<le> 2 ^ j" by (rule one_le_power) simp
  have "(2::int) ^ Suc (Suc j) = 4 * 2 ^ j" by simp
  then have l1: "1 \<le> ?l" using p by linarith
  have cw: "to_bits (?l * 2 ^ ?k + v) = (replicate (Suc j) CHR ''1'' @ ''0'') @ res"
    using to_bits_append [OF l1 res(2)] by (simp only: res(1) res(3) to_bits_unary)
  have cw1: "1 \<le> ?l * 2 ^ ?k + v"
  proof -
    have "1 * 1 \<le> ?l * 2 ^ ?k" using l1 by (intro mult_mono) simp_all
    then show ?thesis using v(1) by simp
  qed
  let ?enc = "(?l * 2 ^ ?k + v) * 2 ^ length t + bits_value t"
  have enc0: "0 \<le> ?enc"
  proof -
    have "0 \<le> (?l * 2 ^ ?k + v) * 2 ^ length t" using cw1 by simp
    then show ?thesis using bits_value_nonneg [of t] by linarith
  qed
  have "to_bits ?enc = ((replicate (Suc j) CHR ''1'' @ ''0'') @ res) @ t"
    using to_bits_append [OF cw1 t] by (simp only: cw)
  then have s: "to_bits ?enc = replicate (Suc j) CHR ''1'' @ CHR ''0'' # res @ t" by simp
  have l0: "0 \<le> ?l" using l1 by linarith
  have "bits_value (to_bits ?l) = ?l" using l0 by (rule bits_value_to_bits)
  then have pv: "bits_value (replicate (Suc j) CHR ''1'' @ ''0'') = ?l"
    by (simp only: to_bits_unary)
  have "bits_value (replicate (Suc j) CHR ''1'' @ ''0'') + bits_value res + 1 \<le> 2 ^ 53"
    using small by (simp only: pv res(3))
  from rle_decode_split [OF enc0 s res(1) this] show ?thesis by (simp only: pv res(3))
qed

lemma decompress_bp_loop_id: "decompress_bp_loop isRle bitplane i decompressed = decompressed"
proof (induction isRle bitplane i decompressed rule: decompress_bp_loop.induct)
  case (1 isRle bitplane i decompressed)
  show ?case
  proof (cases "i < length bitplane")
    case False
    then show ?thesis by (subst decompress_bp_loop.simps) simp
  next
    case True
    then show ?thesis using 1 by (subst decompress_bp_loop.simps) (cases isRle; simp)
  qed
qed

section \<open>Claims\<close>

text \<open>
  C1 as stated, for every \<open>n\<close> from 1 to 100000, fails at \<open>n = 65535\<close>, the first
  value whose codeword needs 32 bits: \<open>l = 65534\<close> is shifted left by 16 in 32-bit
  arithmetic, the encoder returns \<open>-131072\<close>, and decoding that yields \<open>-1\<close>.
\<close>

theorem roundtrip_fails_at_65535:
  "(1::int) \<le> 65535 \<and> (65535::int) \<le> 100000
   \<and> rle_encode 65535 = - 131072
   \<and> rle_decode (rle_encode 65535) = Num (- 1)
   \<and> rle_decode (rle_encode 65535) \<noteq> Num 65535"
  by code_simp

text \<open>
  C1 (amended): for every integer \<open>n\<close> from 1 to 65534, decoding the encoding of
  \<open>n\<close> yields \<open>n\<close>.
\<close>

theorem roundtrip:
  assumes "1 \<le> n" and "n \<le> 65534"
  shows "rle_decode (rle_encode n) = Num n"
proof -
  obtain k where k: "2 ^ k \<le> n + 1" "n + 1 < 2 ^ Suc k" "1 \<le> k" "k \<le> 15"
    using codeword_width [OF assms] by blast
  have enc: "rle_encode n = (2 ^ k - 2) * 2 ^ k + (n + 1 - 2 ^ k)"
    using k by (rule rle_encode_exact)
  show ?thesis
  proof (cases k)
    case 0
    with k(3) show ?thesis by simp
  next
    case (Suc i)
    show ?thesis
    proof (cases i)
      case 0
      with \<open>k = Suc i\<close> k have "n = 1 \<or> n = 2" by auto
      moreover have "rle_decode (rle_encode 1) = Num 1" by code_simp
      moreover have "rle_decode (rle_encode 2) = Num 2" by code_simp
      ultimately show ?thesis by auto
    next
      case (Suc j)
      then have kk: "k = Suc (Suc j)" using \<open>k = Suc i\<close> by simp
      have v: "0 \<le> n + 1 - 2 ^ Suc (Suc j)" "n + 1 - 2 ^ Suc (Suc j) < 2 ^ Suc (Suc j)"
        using k(1,2) unfolding kk by simp_all
      have e: "list_all is_bin_digit []" by simp
      have small: "2 ^ Suc (Suc j) - 2 + (n + 1 - 2 ^ Suc (Suc j)) + 1 \<le> (2::int) ^ 53"
        using assms(2) by simp
      from decode_codeword_suffix [OF v e small] show ?thesis
        unfolding enc kk by simp
    qed
  qed
qed

theorem roundtrip_witness:
  "(1::int) \<le> 63282 \<and> (63282::int) \<le> 65534 \<and> rle_decode (rle_encode 63282) = Num 63282"
  using roundtrip [of 63282] by simp

text \<open>
  C2 as stated, for arbitrary magnitude, fails at \<open>n = 65535\<close>: the reference codeword
  is \<open>65534 * 2 ^ 16 = 4294836224\<close>, the encoder returns \<open>-131072\<close>.
\<close>

theorem encode_overflows_at_65535:
  "rle_encode 65535 = - 131072 \<and> reference_encode 65535 = 4294836224
   \<and> rle_encode 65535 \<noteq> reference_encode 65535"
  by code_simp

text \<open>
  C2 (amended): for every integer \<open>n\<close> from 1 to 65534, with \<open>x = n + 1\<close>,
  \<open>k\<close> the bit length of \<open>x\<close> minus one, \<open>v = x - 2 ^ k\<close> and \<open>l = 2 ^ k - 2\<close>,
  the encoder returns \<open>l * 2 ^ k + v\<close>.
\<close>

theorem encode_matches_reference:
  assumes "1 \<le> n" and "n \<le> 65534"
  shows "rle_encode n = reference_encode n"
proof -
  obtain k where k: "2 ^ k \<le> n + 1" "n + 1 < 2 ^ Suc k" "1 \<le> k" "k \<le> 15"
    "bit_length (n + 1) = Suc k"
    using codeword_width [OF assms] by blast
  have "reference_encode n = (2 ^ k - 2) * 2 ^ k + (n + 1 - 2 ^ k)"
    by (simp add: reference_encode_def Let_def k(5))
  then show ?thesis using rle_encode_exact [OF k(1-4)] by simp
qed

theorem encode_matches_reference_witness:
  "(1::int) \<le> 45 \<and> (45::int) \<le> 65534 \<and> rle_encode 45 = reference_encode 45"
  using encode_matches_reference [of 45] by simp

text \<open>
  C3 as stated, for every such input, fails once the sum is no double. The Number
  \<open>(2 ^ 53 - 1) * 2 ^ 55\<close> is 53 ones, a \<open>0\<close> and 54 zeros: the prefix has value
  \<open>2 ^ 54 - 2\<close>, the residual has value 0, and the decoder returns \<open>2 ^ 54\<close>, the double
  nearest to \<open>2 ^ 54 - 1\<close>.
\<close>

theorem decode_rounds_long_prefix:
  "round_double ((2 ^ 53 - 1) * 2 ^ 55) = (2 ^ 53 - 1) * 2 ^ 55
   \<and> toString2 ((2 ^ 53 - 1) * 2 ^ 55)
       = replicate 53 CHR ''1'' @ CHR ''0'' # replicate 54 CHR ''0'' @ []
   \<and> length (replicate 54 CHR ''0'') = Suc 53
   \<and> bits_value (replicate 53 CHR ''1'' @ ''0'') + bits_value (replicate 54 CHR ''0'') + 1
       = 18014398509481983
   \<and> rle_decode ((2 ^ 53 - 1) * 2 ^ 55) = Num 18014398509481984"
  by code_simp

text \<open>
  C3 (amended): when the binary representation of a non-negative input starts with
  \<open>j \<le> 51\<close> ones and a \<open>0\<close> (a prefix of \<open>k = j + 1 \<le> 52\<close> bits) followed by at least
  \<open>k\<close> more bits, the decoder returns the value of the prefix plus the value of the
  \<open>k\<close> bits after it plus one.
\<close>

theorem decode_matches_reference:
  assumes "0 \<le> encoded" and "j \<le> 51"
    and "toString2 encoded = replicate j CHR ''1'' @ CHR ''0'' # residual @ rest"
    and "length residual = Suc j"
  shows "rle_decode encoded = Num (bits_value (replicate j CHR ''1'' @ ''0'') + bits_value residual + 1)"
proof -
  have s: "to_bits encoded = replicate j CHR ''1'' @ CHR ''0'' # residual @ rest"
    using assms(1,3) by (simp add: toString2_nonneg)
  have "(2::int) ^ Suc j \<le> 2 ^ 52" using assms(2) by (intro power_increasing) simp_all
  moreover have "bits_value (replicate j CHR ''1'' @ ''0'') < 2 ^ Suc j"
    using bits_value_less [of "replicate j CHR ''1'' @ ''0''"] by simp
  moreover have "bits_value residual < 2 ^ Suc j"
    using bits_value_less [of residual] by (simp add: assms(4))
  ultimately have
    "bits_value (replicate j CHR ''1'' @ ''0'') + bits_value residual + 1 \<le> 2 ^ 53"
    by simp
  with assms(1) s assms(4) show ?thesis by (rule rle_decode_split)
qed

theorem decode_matches_reference_witness:
  "(0::int) \<le> 62399 \<and> (4::nat) \<le> 51
   \<and> toString2 62399 = replicate 4 CHR ''1'' @ CHR ''0'' # ''01110'' @ ''111111''
   \<and> length ''01110'' = Suc 4
   \<and> rle_decode 62399 = Num (bits_value (replicate 4 CHR ''1'' @ ''0'') + bits_value ''01110'' + 1)
   \<and> bits_value (replicate 4 CHR ''1'' @ ''0'') + bits_value ''01110'' + 1 = 45"
proof -
  have s: "toString2 62399 = replicate 4 CHR ''1'' @ CHR ''0'' # ''01110'' @ ''111111''"
    by code_simp
  have v: "bits_value (replicate 4 CHR ''1'' @ ''0'') + bits_value ''01110'' + 1 = 45"
    by code_simp
  show ?thesis
    using decode_matches_reference [of 62399 4 "''01110''" "''111111''", OF _ _ s] s v by simp
qed

text \<open>
  C4: the encoder maps 1, 2, 45 and 63282 to the codewords \<open>0b00\<close>, \<open>0b01\<close>,
  \<open>0b1111001110\<close> and \<open>0b111111111111110111011100110011\<close>, and decoding the
  two-zero-bit codeword yields 1.
\<close>

theorem known_vectors:
  "rle_encode 1 = 0b00 \<and> rle_encode 2 = 0b01 \<and> rle_encode 45 = 0b1111001110
   \<and> rle_encode 63282 = 0b111111111111110111011100110011 \<and> rle_decode 0b00 = Num 1"
  by code_simp

text \<open>
  C5 as stated, for every \<open>n \<ge> 1\<close> and every suffix, fails for the codewords that start
  with a \<open>0\<close>: a Number keeps no leading zeros, so \<open>00\<close> followed by \<open>1\<close> is the
  number 1 and decodes to 2, and \<open>01\<close> followed by \<open>0\<close> is the number 2 and decodes
  to 3. It also fails from \<open>n = 65535\<close> on, where the encoder's result is no codeword.
\<close>

theorem trailing_bits_shift_short_codewords:
  "rle_encode 1 = 0
   \<and> rle_decode (rle_encode 1 * 2 ^ length ''1'' + bits_value ''1'') = Num 2
   \<and> rle_encode 2 = 1
   \<and> rle_decode (rle_encode 2 * 2 ^ length ''0'' + bits_value ''0'') = Num 3
   \<and> rle_decode (rle_encode 65535 * 2 ^ length ([] :: string) + bits_value []) = Num (- 1)"
  by code_simp

text \<open>
  C5 (amended): for every integer \<open>n\<close> from 3 to 65534 and every bit string \<open>t\<close>,
  decoding the codeword of \<open>n\<close> followed by \<open>t\<close> yields \<open>n\<close>. The witness is the
  instance \<open>rle_decode 0b1111001110111111 = 45\<close>.
\<close>

theorem trailing_bits_ignored:
  assumes "3 \<le> n" and "n \<le> 65534" and "list_all is_bin_digit t"
  shows "rle_decode (rle_encode n * 2 ^ length t + bits_value t) = Num n"
proof -
  have n1: "1 \<le> n" using assms(1) by simp
  obtain k where k: "2 ^ k \<le> n + 1" "n + 1 < 2 ^ Suc k" "1 \<le> k" "k \<le> 15"
    using codeword_width [OF n1 assms(2)] by blast
  have enc: "rle_encode n = (2 ^ k - 2) * 2 ^ k + (n + 1 - 2 ^ k)"
    using k by (rule rle_encode_exact)
  have "\<not> k < 2"
  proof
    assume "k < 2"
    then have "(2::int) ^ Suc k \<le> 2 ^ 2" by (intro power_increasing) simp_all
    then show False using k(2) assms(1) by simp
  qed
  then have "k = Suc (Suc (k - 2))" by simp
  then obtain j where kk: "k = Suc (Suc j)" by (rule that)
  have v: "0 \<le> n + 1 - 2 ^ Suc (Suc j)" "n + 1 - 2 ^ Suc (Suc j) < 2 ^ Suc (Suc j)"
    using k(1,2) unfolding kk by simp_all
  have small: "2 ^ Suc (Suc j) - 2 + (n + 1 - 2 ^ Suc (Suc j)) + 1 \<le> (2::int) ^ 53"
    using assms(2) by simp
  from decode_codeword_suffix [OF v assms(3) small] show ?thesis
    unfolding enc kk by simp
qed

theorem trailing_bits_ignored_witness:
  "(3::int) \<le> 45 \<and> (45::int) \<le> 65534 \<and> list_all is_bin_digit ''111111''
   \<and> rle_encode 45 * 2 ^ length ''111111'' + bits_value ''111111'' = 0b1111001110111111
   \<and> rle_decode 0b1111001110111111 = Num 45"
proof -
  have b: "list_all is_bin_digit ''111111''" by (simp add: is_bin_digit_def)
  have e: "rle_encode 45 * 2 ^ length ''111111'' + bits_value ''111111'' = 0b1111001110111111"
    by code_simp
  show ?thesis using trailing_bits_ignored [of 45 "''111111''", OF _ _ b] b e by simp
qed

text \<open>
  C6 as stated, that a truncated input makes the decoder fail, is false: \<open>0b11\<close> has no
  terminating \<open>0\<close> and decodes to 4, and \<open>0b1101\<close> has one residual bit after a
  prefix of three and decodes to 8.
\<close>

theorem truncated_input_returns_value:
  "truncated 3 \<and> rle_decode 3 = Num 4 \<and> truncated 13 \<and> rle_decode 13 = Num 8"
  by code_simp

text \<open>
  C6 (amended): on a truncated non-negative input the decoder raises no error and returns
  a positive integer. For an input below \<open>2 ^ 53\<close> that integer is the value of the
  prefix it read, plus the value of the residual bits that are present (0 when there
  are none), plus one.
\<close>

theorem truncated_decode_value:
  assumes "0 \<le> encoded" and "truncated encoded"
  shows "(\<exists>v. rle_decode encoded = Num v \<and> 1 \<le> v)
         \<and> (encoded < 2 ^ 53 \<longrightarrow>
              rle_decode encoded =
                Num (bits_value (read_prefix (toString2 encoded))
                     + bits_value (drop (length (read_prefix (toString2 encoded)))
                                     (toString2 encoded))
                     + 1))"
proof -
  define s where "s = to_bits encoded"
  define k where "k = length (read_prefix s)"
  have ts: "toString2 encoded = s" using assms(1) by (simp add: toString2_nonneg s_def)
  have short: "length s < 2 * k"
  proof -
    have "list_all (\<lambda>c. c = CHR ''1'') s \<or> length s < 2 * k"
      using assms(2) by (simp add: truncated_def Let_def ts k_def)
    then show ?thesis
    proof
      assume "list_all (\<lambda>c. c = CHR ''1'') s"
      then have "read_prefix s = s" by (rule read_prefix_ones)
      then have "k = length s" by (simp add: k_def)
      moreover have "s \<noteq> []" by (simp add: s_def to_bits_nonempty)
      ultimately show ?thesis by (cases s) simp_all
    qed
  qed
  then have td: "take k (drop k s) = drop k s" by simp
  have exact: "rle_decode encoded = Num (bits_value (read_prefix s) + bits_value (drop k s) + 1)"
    if "encoded < 2 ^ 53"
    using rle_decode_safe [OF assms(1) that] td by (simp add: s_def k_def)
  show ?thesis using rle_decode_positive [OF assms(1)] exact by (simp add: ts k_def)
qed

theorem truncated_decode_value_witness:
  "(0::int) \<le> 13 \<and> truncated 13 \<and> (13::int) < 2 ^ 53
   \<and> read_prefix (toString2 13) = ''110''
   \<and> drop (length (read_prefix (toString2 13))) (toString2 13) = ''1''
   \<and> rle_decode 13 = Num (bits_value ''110'' + bits_value ''1'' + 1)
   \<and> (\<exists>v. rle_decode 13 = Num v \<and> 1 \<le> v)"
proof -
  have h: "(0::int) \<le> 13" by simp
  have b: "(13::int) < 2 ^ 53" by simp
  have t: "truncated 13" by code_simp
  have p: "read_prefix (toString2 13) = ''110''" by code_simp
  have d: "drop (length (read_prefix (toString2 13))) (toString2 13) = ''1''" by code_simp
  note w = truncated_decode_value [OF h t]
  from w have v: "\<exists>v. rle_decode 13 = Num v \<and> 1 \<le> v" by (rule conjunct1)
  from w b have "rle_decode 13 =
                Num (bits_value (read_prefix (toString2 13))
                     + bits_value (drop (length (read_prefix (toString2 13))) (toString2 13))
                     + 1)" by blast
  moreover have "drop (length ''110'') (toString2 13) = ''1''" using d by (simp only: p)
  ultimately have r: "rle_decode 13 = Num (bits_value ''110'' + bits_value ''1'' + 1)"
    by (simp only: p)
  show ?thesis using h t b p d r v by blast
qed

text \<open>
  C7: decoding one bitplane should return the requested number of pair values. On the
  sample stream of the script, \<open>decompress_bp\<close> returns \<open>undefined\<close> and no pair
  values at all.
\<close>

theorem decompress_bp_sample:
  "decompress_bp ''01001101100110100011111110100011011110110101000'' = Undefined"
  by (simp add: decompress_bp_def)



text \<open>
  C10: \<open>decompress_bp\<close> returns \<open>undefined\<close> for every input string, and its loop
  leaves the output string empty.
\<close>

theorem decompress_bp_undefined:
  "decompress_bp bitplane = Undefined
   \<and> decompress_bp_loop (charAt bitplane 0 = ''0'') bitplane 1 [] = []"
  by (simp add: decompress_bp_def decompress_bp_loop_id)

theorem decompress_bp_undefined_witness:
  "decompress_bp ''0011'' = Undefined
   \<and> decompress_bp_loop (charAt ''0011'' 0 = ''0'') ''0011'' 1 [] = []"
  by (rule decompress_bp_undefined)

end
